theory Spec2Isabelle
  imports Complex_Main "HOL-Library.Sublist" "HOL-Library.Char_ord" "HOL-Library.List_Lexorder"
begin

section \<open>The crawler of index-poke.py: data model\<close>

text \<open>
  The module keeps its frontier in a Redis server (a sorted set of pending URLs and two
  plain sets) and its statistics in the scraper object. Python floats are modelled as
  real numbers: the score arithmetic below is the exact arithmetic that the float
  expressions of the source approximate.
\<close>

type_synonym url = string

text \<open>A decoded JSON document, as \<open>response.json()\<close> returns it.\<close>

datatype json =
    JNull
  | JBool bool
  | JNum real
  | JStr string
  | JArr "json list"
  | JObj "(string \<times> json) list"

text \<open>Exceptions that reach the worker loop, by class.\<close>

datatype exn = RedisError | TypeError | AttributeError | KeyError

text \<open>
  What one HTTP attempt (\<open>session.get\<close>, \<open>raise_for_status\<close>, \<open>response.json\<close>) does:
  it returns the decoded body, raises a \<open>requests.exceptions.RequestException\<close>, or
  raises some other exception. The string is \<open>str(e)\<close>.
\<close>

datatype outcome = Response json | RequestException string | OtherException string

text \<open>The Redis commands of the module, by call site; an oracle says which of them raise.\<close>

datatype call =
    Delete
  | ScanDelete
  | ZAddSeed nat
  | ZPopMin
  | SIsMemberPopped
  | SAddFailed
  | SetData
  | SIsMemberNew nat
  | ZScoreNew nat
  | ZAddNew nat
  | SAddCompleted

text \<open>Messages of the logger at warning and error level, and the idle-stop notice.\<close>

datatype log_msg =
    AttemptFailed nat url string real
  | FailedToScrape url nat
  | UnexpectedError url string
  | FailedToSave url
  | NoNewUrlsStopping
  | WorkerThreadError exn

text \<open>The observable effects of a worker besides its writes to the store.\<close>

datatype event = Sleep real | HttpGet url | Log log_msg

record stored_data =
  sd_url :: url
  scraped_at :: real
  sd_data :: json

text \<open>
  The scraper object together with the contents of the Redis keys it owns. The pending
  queue is a sorted set: an association list from member to score, with each member
  at most once.
\<close>

record scraper =
  root_url :: string
  stop_event :: bool
  start_time :: real
  last_new_url_time :: real
  urls_scraped :: nat
  urls_failed :: nat
  errors :: "string list"
  url_counter :: int
  request_delay :: real
  max_retries :: nat
  backoff_factor :: nat
  no_new_urls_timeout :: real
  pending_queue :: "(url \<times> real) list"
  completed_set :: "url set"
  failed_set :: "url set"
  data_store :: "string \<rightharpoonup> stored_data"
  trace :: "event list"

text \<open>
  \<open>__init__\<close>: the constructor sets the configuration and the statistics; the contents of
  the Redis keys are whatever the server holds (the last four arguments).
\<close>

definition init_scraper ::
  "string \<Rightarrow> real \<Rightarrow> (url \<times> real) list \<Rightarrow> url set \<Rightarrow> url set \<Rightarrow> (string \<rightharpoonup> stored_data) \<Rightarrow> scraper" where
  "init_scraper base now pq cset fset0 dstore =
     \<lparr>root_url = base, stop_event = False, start_time = now, last_new_url_time = now,
      urls_scraped = 0, urls_failed = 0, errors = [], url_counter = 0,
      request_delay = 1 / 2, max_retries = 3, backoff_factor = 2,
      no_new_urls_timeout = 30,
      pending_queue = pq, completed_set = cset, failed_set = fset0, data_store = dstore,
      trace = []\<rparr>"

section \<open>Strings\<close>

text \<open>
  \<open>s.replace(old, new)\<close>: every non-overlapping occurrence of \<open>old\<close>, left to right.
  The counter is the number of characters of a match still to skip.
\<close>

fun replace_from :: "string \<Rightarrow> string \<Rightarrow> nat \<Rightarrow> string \<Rightarrow> string" where
  "replace_from old new k [] = []"
| "replace_from old new (Suc k) (c # cs) = replace_from old new k cs"
| "replace_from old new 0 (c # cs) =
     (if prefix old (c # cs) then new @ replace_from old new (length old - 1) cs
      else c # replace_from old new 0 cs)"

definition str_replace :: "string \<Rightarrow> string \<Rightarrow> string \<Rightarrow> string" where
  "str_replace old new s =
     (if old = [] then new @ concat (map (\<lambda>c. c # new) s) else replace_from old new 0 s)"

text \<open>\<open>s.split(sep)\<close> for a one-character separator: never the empty list.\<close>

fun split_on :: "char \<Rightarrow> string \<Rightarrow> string list" where
  "split_on sep [] = [[]]"
| "split_on sep (c # cs) =
     (if c = sep then [] # split_on sep cs
      else (case split_on sep cs of [] \<Rightarrow> [[c]] | p # ps \<Rightarrow> (c # p) # ps))"

text \<open>\<open>p in s\<close> on strings.\<close>

fun is_substring :: "string \<Rightarrow> string \<Rightarrow> bool" where
  "is_substring p [] = (p = [])"
| "is_substring p (c # cs) = (prefix p (c # cs) \<or> is_substring p cs)"

section \<open>The scorer\<close>

definition type_priorities :: "string \<Rightarrow> int" where
  "type_priorities resource_type =
     (if resource_type = ''films'' then 1
      else if resource_type = ''people'' then 2
      else if resource_type = ''planets'' then 3
      else if resource_type = ''starships'' then 4
      else if resource_type = ''vehicles'' then 4
      else if resource_type = ''species'' then 5
      else 9)"

definition resource_type_of :: "string \<Rightarrow> url \<Rightarrow> string" where
  "resource_type_of base u =
     (case split_on CHR ''/'' (str_replace base [] u) of
        [] \<Rightarrow> ''unknown''
      | p # _ \<Rightarrow> p)"

text \<open>The score expression of line 125.\<close>

definition score_value :: "int \<Rightarrow> int \<Rightarrow> int \<Rightarrow> real" where
  "score_value type_priority depth counter =
     of_int (type_priority * 100) + of_int (depth * 10) + of_int counter * (1 / 1000)"

text \<open>\<open>_calculate_url_score\<close>: increments the shared counter and returns the score.\<close>

definition calculate_url_score :: "url \<Rightarrow> int \<Rightarrow> scraper \<Rightarrow> real \<times> scraper" where
  "calculate_url_score u depth s =
     (let type_priority = type_priorities (resource_type_of (root_url s) u);
          counter = url_counter s + 1
      in (score_value type_priority depth counter, s\<lparr>url_counter := counter\<rparr>))"

text \<open>Python's \<open>%\<close> and \<open>//\<close> on floats with a positive divisor, and \<open>int()\<close>.\<close>

definition py_mod :: "real \<Rightarrow> real \<Rightarrow> real" where
  "py_mod x y = x - y * of_int \<lfloor>x / y\<rfloor>"

definition py_floordiv :: "real \<Rightarrow> real \<Rightarrow> real" where
  "py_floordiv x y = of_int \<lfloor>x / y\<rfloor>"

definition py_int :: "real \<Rightarrow> int" where
  "py_int x = (if 0 \<le> x then \<lfloor>x\<rfloor> else \<lceil>x\<rceil>)"

text \<open>The worker's depth recovery of line 307.\<close>

definition current_depth :: "real \<Rightarrow> int" where
  "current_depth score = py_int (py_floordiv (py_mod score 100) 10)"

section \<open>The frontier store\<close>

text \<open>
  The Redis commands the module uses, on the model of the keys. \<open>ZADD\<close> sets the score of
  a member, new or not; \<open>ZPOPMIN\<close> removes the member of least score, the least member in
  byte order among equal scores.
\<close>

definition zscore :: "(url \<times> real) list \<Rightarrow> url \<Rightarrow> real option" where
  "zscore q u = map_of q u"

definition zadd :: "(url \<times> real) list \<Rightarrow> url \<Rightarrow> real \<Rightarrow> (url \<times> real) list" where
  "zadd q u score =
     (if u \<in> fst ` set q then map (\<lambda>(m, sc). if m = u then (m, score) else (m, sc)) q
      else q @ [(u, score)])"

definition zless :: "(url \<times> real) \<Rightarrow> (url \<times> real) \<Rightarrow> bool" where
  "zless a b = (snd a < snd b \<or> (snd a = snd b \<and> fst a < fst b))"

fun zmin :: "(url \<times> real) \<Rightarrow> (url \<times> real) list \<Rightarrow> (url \<times> real)" where
  "zmin m [] = m"
| "zmin m (x # xs) = zmin (if zless x m then x else m) xs"

definition zpopmin :: "(url \<times> real) list \<Rightarrow> ((url \<times> real) \<times> (url \<times> real) list) option" where
  "zpopmin q =
     (case q of
        [] \<Rightarrow> None
      | x # xs \<Rightarrow> (let m = zmin x xs in Some (m, filter (\<lambda>y. fst y \<noteq> fst m) q)))"

section \<open>Seeding\<close>

text \<open>
  \<open>initialize_redis\<close>: one \<open>DELETE\<close> of the three keys, the deletion of every stored
  record, then one \<open>ZADD\<close> per seed at depth 0. A command that raises ends the function
  with the exception; what was written before stays written.
\<close>

fun seed_loop :: "(call \<Rightarrow> bool) \<Rightarrow> nat \<Rightarrow> url list \<Rightarrow> scraper \<Rightarrow> (exn + unit) \<times> scraper" where
  "seed_loop dn i [] s = (Inr (), s)"
| "seed_loop dn i (seed_url # rest) s =
     (let (initial_score, s1) = calculate_url_score seed_url 0 s
      in if dn (ZAddSeed i) then (Inl RedisError, s1)
         else seed_loop dn (Suc i) rest
                (s1\<lparr>pending_queue := zadd (pending_queue s1) seed_url initial_score\<rparr>))"

definition initialize_redis :: "(call \<Rightarrow> bool) \<Rightarrow> url list \<Rightarrow> scraper \<Rightarrow> (exn + unit) \<times> scraper" where
  "initialize_redis dn seed_urls s =
     (if dn Delete then (Inl RedisError, s)
      else let s1 = s\<lparr>pending_queue := [], completed_set := {}, failed_set := {}\<rparr>
           in if dn ScanDelete then (Inl RedisError, s1)
              else seed_loop dn 0 seed_urls (s1\<lparr>data_store := Map.empty\<rparr>))"

section \<open>Enqueueing discoveries\<close>

text \<open>
  \<open>add_new_urls\<close>: the loop over the URLs, with the index of the URL (for the oracle) and
  the count of additions so far; then the update of \<open>last_new_url_time\<close>.
\<close>

fun add_urls_loop ::
  "(call \<Rightarrow> bool) \<Rightarrow> nat \<Rightarrow> url list \<Rightarrow> int \<Rightarrow> nat \<Rightarrow> scraper \<Rightarrow> (exn + nat) \<times> scraper" where
  "add_urls_loop dn i [] depth new_urls_count s = (Inr new_urls_count, s)"
| "add_urls_loop dn i (u # rest) depth new_urls_count s =
     (if dn (SIsMemberNew i) then (Inl RedisError, s)
      else if dn (ZScoreNew i) then (Inl RedisError, s)
      else
        let is_completed = (u \<in> completed_set s);
            is_pending = (zscore (pending_queue s) u \<noteq> None)
        in if \<not> is_completed \<and> \<not> is_pending then
             (let (score, s1) = calculate_url_score u depth s
              in if dn (ZAddNew i) then (Inl RedisError, s1)
                 else add_urls_loop dn (Suc i) rest depth (Suc new_urls_count)
                        (s1\<lparr>pending_queue := zadd (pending_queue s1) u score\<rparr>))
           else add_urls_loop dn (Suc i) rest depth new_urls_count s)"

definition add_new_urls ::
  "(call \<Rightarrow> bool) \<Rightarrow> url list \<Rightarrow> int \<Rightarrow> real \<Rightarrow> scraper \<Rightarrow> (exn + nat) \<times> scraper" where
  "add_new_urls dn urls depth now s =
     (case add_urls_loop dn 0 urls depth 0 s of
        (Inl e, s1) \<Rightarrow> (Inl e, s1)
      | (Inr new_urls_count, s1) \<Rightarrow>
          (Inr new_urls_count,
           if new_urls_count > 0 then s1\<lparr>last_new_url_time := now\<rparr> else s1))"

section \<open>The fetcher\<close>

definition emit :: "event list \<Rightarrow> scraper \<Rightarrow> scraper" where
  "emit evs s = s\<lparr>trace := trace s @ evs\<rparr>"

definition error_entry :: "url \<Rightarrow> string \<Rightarrow> string" where
  "error_entry u e = u @ '': '' @ e"

text \<open>
  \<open>scrape_url\<close>: the \<open>for attempt in range(self.max_retries)\<close> loop, with the number of
  attempts left and the attempt index. The result \<open>JNull\<close> is Python's \<open>None\<close>. A loop
  that runs out without a return (only when \<open>max_retries\<close> is 0) falls off the end of
  the function, which returns \<open>None\<close>. The test \<open>attempt < self.max_retries - 1\<close> is
  written on integers.
\<close>

fun scrape_loop ::
  "(call \<Rightarrow> bool) \<Rightarrow> (nat \<Rightarrow> outcome) \<Rightarrow> url \<Rightarrow> nat \<Rightarrow> nat \<Rightarrow> scraper \<Rightarrow> (exn + json) \<times> scraper" where
  "scrape_loop dn http u 0 attempt s = (Inr JNull, s)"
| "scrape_loop dn http u (Suc left) attempt s =
     (let s1 = emit [Sleep (request_delay s), HttpGet u] s
      in case http attempt of
           Response data \<Rightarrow> (Inr data, s1\<lparr>urls_scraped := urls_scraped s1 + 1\<rparr>)
         | RequestException e \<Rightarrow>
             (let wait_time = real (backoff_factor s1 ^ attempt);
                  s2 = emit [Log (AttemptFailed (attempt + 1) u e wait_time)] s1
              in if int attempt < int (max_retries s2) - 1 then
                   scrape_loop dn http u left (attempt + 1) (emit [Sleep wait_time] s2)
                 else
                   (let s3 = (emit [Log (FailedToScrape u (max_retries s2))] s2)
                               \<lparr>urls_failed := urls_failed s2 + 1,
                                errors := errors s2 @ [error_entry u e]\<rparr>
                    in if dn SAddFailed then (Inl RedisError, s3)
                       else (Inr JNull, s3\<lparr>failed_set := insert u (failed_set s3)\<rparr>)))
         | OtherException e \<Rightarrow>
             (Inr JNull,
              (emit [Log (UnexpectedError u e)] s1)\<lparr>errors := errors s1 @ [error_entry u e]\<rparr>))"

definition scrape_url ::
  "(call \<Rightarrow> bool) \<Rightarrow> (nat \<Rightarrow> outcome) \<Rightarrow> url \<Rightarrow> scraper \<Rightarrow> (exn + json) \<times> scraper" where
  "scrape_url dn http u s = scrape_loop dn http u (max_retries s) 0 s"

section \<open>The extractor and the record store\<close>

definition url_fields :: "string list" where
  "url_fields = [''characters'', ''films'', ''people'', ''pilots'', ''planets'',
                 ''residents'', ''species'', ''starships'', ''vehicles'']"

text \<open>Python truthiness, \<open>field in data\<close> and \<open>data[field]\<close> on a decoded JSON value.\<close>

fun truthy :: "json \<Rightarrow> bool" where
  "truthy JNull = False"
| "truthy (JBool b) = b"
| "truthy (JNum x) = (x \<noteq> 0)"
| "truthy (JStr t) = (t \<noteq> [])"
| "truthy (JArr xs) = (xs \<noteq> [])"
| "truthy (JObj kvs) = (kvs \<noteq> [])"

fun contains_field :: "json \<Rightarrow> string \<Rightarrow> exn + bool" where
  "contains_field (JObj kvs) f = Inr (f \<in> fst ` set kvs)"
| "contains_field (JArr xs) f = Inr (JStr f \<in> set xs)"
| "contains_field (JStr t) f = Inr (is_substring f t)"
| "contains_field _ f = Inl TypeError"

fun get_item :: "json \<Rightarrow> string \<Rightarrow> exn + json" where
  "get_item (JObj kvs) f = (case map_of kvs f of None \<Rightarrow> Inl KeyError | Some v \<Rightarrow> Inr v)"
| "get_item _ f = Inl TypeError"

fun collect_fields :: "json \<Rightarrow> string list \<Rightarrow> exn + json list" where
  "collect_fields data [] = Inr []"
| "collect_fields data (f # fs) =
     (case contains_field data f of
        Inl e \<Rightarrow> Inl e
      | Inr False \<Rightarrow> collect_fields data fs
      | Inr True \<Rightarrow>
          (case get_item data f of
             Inl e \<Rightarrow> Inl e
           | Inr (JArr xs) \<Rightarrow>
               (case collect_fields data fs of Inl e \<Rightarrow> Inl e | Inr ys \<Rightarrow> Inr (xs @ ys))
           | Inr _ \<Rightarrow> collect_fields data fs))"

text \<open>
  The final comprehension \<open>[url for url in urls if url and url.startswith(root_url)]\<close>:
  a falsy element is dropped, a string is tested, anything else has no \<open>startswith\<close>.
\<close>

fun keep_rooted :: "string \<Rightarrow> json list \<Rightarrow> exn + url list" where
  "keep_rooted base [] = Inr []"
| "keep_rooted base (x # xs) =
     (if \<not> truthy x then keep_rooted base xs
      else case x of
             JStr t \<Rightarrow>
               (case keep_rooted base xs of
                  Inl e \<Rightarrow> Inl e
                | Inr us \<Rightarrow> Inr (if prefix base t then t # us else us))
           | _ \<Rightarrow> Inl AttributeError)"

definition extract_urls_from_response :: "string \<Rightarrow> json \<Rightarrow> exn + url list" where
  "extract_urls_from_response base data =
     (case collect_fields data url_fields of
        Inl e \<Rightarrow> Inl e
      | Inr urls \<Rightarrow> keep_rooted base urls)"

text \<open>
  \<open>save_response_data\<close> catches every exception itself. The key is modelled without the
  constant prefix of the data keys.
\<close>

definition save_response_data :: "(call \<Rightarrow> bool) \<Rightarrow> real \<Rightarrow> url \<Rightarrow> json \<Rightarrow> scraper \<Rightarrow> scraper" where
  "save_response_data dn now u data s =
     (let key = str_replace ''/'' '':'' (str_replace (root_url s) [] u);
          stored = \<lparr>sd_url = u, scraped_at = now, sd_data = data\<rparr>
      in if dn SetData then emit [Log (FailedToSave u)] s
         else s\<lparr>data_store := (data_store s)(key \<mapsto> stored)\<rparr>)"

section \<open>The worker\<close>

text \<open>
  What the surroundings do during one iteration of a worker's loop: whether the stop
  event has been set by someone else (the signal handler, another worker, the
  coordinator) before the loop test, which Redis commands raise, what the HTTP attempts
  return, and the three readings of the clock.
\<close>

record env =
  stop_requested :: bool
  redis_down :: "call \<Rightarrow> bool"
  attempts :: "nat \<Rightarrow> outcome"
  t_idle :: real
  t_saved :: real
  t_added :: real

datatype flow = Continue | Break

datatype exit_reason = StopObserved | IdleBreak

text \<open>
  The \<open>try\<close> block of the loop body (lines 268 to 314): it ends with \<open>continue\<close> or by
  reaching the end of the body (both \<open>Continue\<close>), with \<open>break\<close>, or with an exception.
\<close>

definition try_body :: "env \<Rightarrow> scraper \<Rightarrow> (exn + flow) \<times> scraper" where
  "try_body e s =
     (if redis_down e ZPopMin then (Inl RedisError, s)
      else case zpopmin (pending_queue s) of
        None \<Rightarrow>
          (if t_idle e - last_new_url_time s > no_new_urls_timeout s then
             (Inr Break, (emit [Log NoNewUrlsStopping] s)\<lparr>stop_event := True\<rparr>)
           else (Inr Continue, emit [Sleep 1] s))
      | Some ((u, score), rest) \<Rightarrow>
          (let s1 = s\<lparr>pending_queue := rest\<rparr>
           in if redis_down e SIsMemberPopped then (Inl RedisError, s1)
              else if u \<in> completed_set s1 then (Inr Continue, s1)
              else case scrape_url (redis_down e) (attempts e) u s1 of
                (Inl x, s2) \<Rightarrow> (Inl x, s2)
              | (Inr data, s2) \<Rightarrow>
                  (if truthy data then
                     (let s3 = save_response_data (redis_down e) (t_saved e) u data s2
                      in case extract_urls_from_response (root_url s3) data of
                           Inl x \<Rightarrow> (Inl x, s3)
                         | Inr new_urls \<Rightarrow>
                             (case add_new_urls (redis_down e) new_urls
                                     (current_depth score + 1) (t_added e) s3 of
                                (Inl x, s4) \<Rightarrow> (Inl x, s4)
                              | (Inr new_count, s4) \<Rightarrow>
                                  (if redis_down e SAddCompleted then (Inl RedisError, s4)
                                   else (Inr Continue,
                                         s4\<lparr>completed_set := insert u (completed_set s4)\<rparr>))))
                   else (Inr Continue, s2))))"

text \<open>The \<open>except Exception\<close> clause of the loop body: log, sleep a second, go on.\<close>

definition worker_iteration :: "env \<Rightarrow> scraper \<Rightarrow> flow \<times> scraper" where
  "worker_iteration e s =
     (case try_body e s of
        (Inl x, s1) \<Rightarrow> (Continue, emit [Log (WorkerThreadError x), Sleep 1] s1)
      | (Inr f, s1) \<Rightarrow> (f, s1))"

text \<open>
  \<open>worker_thread\<close>: the \<open>while not self.stop_event.is_set()\<close> loop, run against a finite
  schedule of surroundings. \<open>None\<close> says that the worker is still in its loop when the
  schedule ends.
\<close>

fun worker_thread :: "env list \<Rightarrow> scraper \<Rightarrow> exit_reason option \<times> scraper" where
  "worker_thread [] s = (None, s)"
| "worker_thread (e # es) s =
     (let s0 = (if stop_requested e then s\<lparr>stop_event := True\<rparr> else s)
      in if stop_event s0 then (Some StopObserved, s0)
         else case worker_iteration e s0 of
                (Break, s1) \<Rightarrow> (Some IdleBreak, s1)
              | (Continue, s1) \<Rightarrow> worker_thread es s1)"

section \<open>Observations on traces\<close>

text \<open>The requests of a trace, in order.\<close>

definition http_gets :: "event list \<Rightarrow> url list" where
  "http_gets evs = concat (map (\<lambda>ev. case ev of HttpGet u \<Rightarrow> [u] | _ \<Rightarrow> []) evs)"

text \<open>The sleeps and requests of a trace, in order, without the log messages.\<close>

definition waits_and_gets :: "event list \<Rightarrow> event list" where
  "waits_and_gets evs = filter (\<lambda>ev. case ev of Log m \<Rightarrow> False | _ \<Rightarrow> True) evs"

section \<open>Sample inputs\<close>

text \<open>
  A scraper as the constructor leaves it, on an empty store, and surroundings in which
  nothing is requested, Redis answers, and every HTTP attempt ends in a 503.
\<close>

abbreviation fresh :: scraper where
  "fresh \<equiv> init_scraper ''http://x/'' 0 [] {} {} Map.empty"

abbreviation quiet :: env where
  "quiet \<equiv> \<lparr>stop_requested = False, redis_down = (\<lambda>c. False),
             attempts = (\<lambda>i. RequestException ''503''),
             t_idle = 0, t_saved = 0, t_added = 0\<rparr>"

section \<open>Evaluation on given inputs\<close>

text \<open>The definitions that the evaluation of a run on given inputs unfolds.\<close>

lemmas run_defs =
  worker_iteration_def try_body_def zpopmin_def zless_def zscore_def zadd_def
  scrape_url_def emit_def error_entry_def Let_def
  save_response_data_def extract_urls_from_response_def url_fields_def
  add_new_urls_def calculate_url_score_def score_value_def resource_type_of_def
  str_replace_def type_priorities_def current_depth_def py_mod_def py_floordiv_def
  py_int_def init_scraper_def initialize_redis_def numeral_3_eq_3

section \<open>The score and the depth read back from it\<close>

text \<open>
  While the depth is below 10 and the counter below 10000, the three summands of the
  score occupy separate decimal positions and the worker reads the depth back.
\<close>

lemma current_depth_in_range:
  assumes "0 \<le> d" "d < 10" "0 \<le> c" "c < 10000"
  shows "current_depth (score_value tp d c) = d"
proof -
  let ?r = "of_int (d * 10) + of_int c * (1 / 1000) :: real"
  have r0: "0 \<le> ?r" using assms by simp
  have "of_int c * (1 / 1000) < (10::real)" using assms by simp
  moreover have "(of_int (d * 10) :: real) \<le> 90" using assms by simp
  ultimately have r1: "?r < 100" by linarith
  have fl: "\<lfloor>score_value tp d c / 100\<rfloor> = tp"
    unfolding score_value_def using r0 r1 by (intro floor_unique) (simp_all add: field_simps)
  have md: "py_mod (score_value tp d c) 100 = ?r"
    unfolding py_mod_def fl by (simp add: score_value_def)
  have "\<lfloor>?r / 10\<rfloor> = d"
    using assms by (intro floor_unique) (simp_all add: field_simps)
  then show ?thesis
    unfolding current_depth_def md py_floordiv_def py_int_def using assms by simp
qed

lemma score_depth_dominates_in_range:
  "c < c' + 10000 \<Longrightarrow> score_value tp d c < score_value tp (d + 1) c'"
  by (simp add: score_value_def)

lemma score_type_dominates_in_range:
  assumes "tp < tp'" "c < c' + 100000"
  shows "score_value tp d c < score_value tp' d c'"
proof -
  have "tp + 1 \<le> tp'" using assms by simp
  then have "real_of_int (tp + 1) \<le> real_of_int tp'" by (simp only: of_int_le_iff)
  then have a: "real_of_int tp * 100 + 100 \<le> real_of_int tp' * 100" by simp
  have "real_of_int c < real_of_int (c' + 100000)" using assms by (simp only: of_int_less_iff)
  then have b: "real_of_int c * (1 / 1000) < real_of_int c' * (1 / 1000) + 100" by simp
  show ?thesis using a b by (simp add: score_value_def)
qed

text \<open>
  C2. The worker's depth recovery does not invert the score formula for every depth
  and counter. A film URL scored at depth 10 by a fresh scraper (counter 1) has the
  score 200.001, from which line 307 reads the depth 0; a worker that pops this item
  and finds a link in its payload enqueues the link at depth 1 (score 110.002), not
  at depth 11. With 9999 URLs scored before, a depth-3 film URL gets the score 140,
  read back as depth 4.
\<close>

theorem depth_recovery_fails_at_depth_10:
  "fst (calculate_url_score ''http://x/films/1/'' 10 fresh) = 200001 / 1000
   \<and> current_depth (200001 / 1000) = 0
   \<and> pending_queue (snd (worker_thread
        [quiet\<lparr>attempts :=
           (\<lambda>i. Response (JObj [(''films'', JArr [JStr ''http://x/films/2/''])]))\<rparr>]
        (fresh\<lparr>pending_queue := [(''http://x/films/1/'', 200001 / 1000)],
                url_counter := 1\<rparr>)))
     = [(''http://x/films/2/'', 110002 / 1000)]
   \<and> fst (calculate_url_score ''http://x/films/1/'' 3 (fresh\<lparr>url_counter := 9999\<rparr>)) = 140
   \<and> current_depth 140 = 4"
  by (simp add: run_defs)

text \<open>
  C3. The counter term overtakes the depth term and the type term once the counters
  are far enough apart: the 10002nd URL scored, at depth 0, scores above the first URL
  scored, at depth 1, of the same type; and a film URL scored 400002nd scores above a
  species URL scored first, both at depth 0.
\<close>

theorem counter_overtakes_depth_and_type:
  "fst (calculate_url_score ''http://x/films/1/'' 1 fresh) = 110001 / 1000
   \<and> fst (calculate_url_score ''http://x/films/2/'' 0 (fresh\<lparr>url_counter := 10001\<rparr>))
       = 110002 / 1000
   \<and> fst (calculate_url_score ''http://x/films/1/'' 1 fresh)
       < fst (calculate_url_score ''http://x/films/2/'' 0 (fresh\<lparr>url_counter := 10001\<rparr>))
   \<and> fst (calculate_url_score ''http://x/species/1/'' 0 fresh) = 500001 / 1000
   \<and> fst (calculate_url_score ''http://x/films/1/'' 0 (fresh\<lparr>url_counter := 400001\<rparr>))
       = 500002 / 1000
   \<and> fst (calculate_url_score ''http://x/species/1/'' 0 fresh)
       < fst (calculate_url_score ''http://x/films/1/'' 0 (fresh\<lparr>url_counter := 400001\<rparr>))"
  by (simp add: calculate_url_score_def init_scraper_def score_value_def
      resource_type_of_def str_replace_def type_priorities_def)

section \<open>The fetcher: attempts, backoff, terminal failure\<close>

lemma http_gets_append [simp]: "http_gets (xs @ ys) = http_gets xs @ http_gets ys"
  by (simp add: http_gets_def)

lemma http_gets_simps [simp]:
  "http_gets [] = []"
  "http_gets (HttpGet u # evs) = u # http_gets evs"
  "http_gets (Sleep d # evs) = http_gets evs"
  "http_gets (Log m # evs) = http_gets evs"
  by (simp_all add: http_gets_def)

text \<open>The loop sends at most as many requests as it has attempts left.\<close>

lemma scrape_loop_gets:
  "length (http_gets (trace (snd (scrape_loop dn hp u left attempt s))))
     \<le> length (http_gets (trace s)) + left"
proof (induction left arbitrary: attempt s)
  case 0
  then show ?case by simp
next
  case (Suc left)
  show ?case
  proof (cases "hp attempt")
    case (Response d)
    then show ?thesis by (simp add: emit_def)
  next
    case (RequestException e)
    show ?thesis
    proof (cases "int attempt < int (max_retries s) - 1")
      case True
      let ?s' = "emit [Sleep (real (backoff_factor s ^ attempt))]
          (emit [Log (AttemptFailed (attempt + 1) u e (real (backoff_factor s ^ attempt)))]
            (emit [Sleep (request_delay s), HttpGet u] s))"
      have "length (http_gets (trace (snd (scrape_loop dn hp u left (attempt + 1) ?s'))))
            \<le> length (http_gets (trace ?s')) + left"
        by (rule Suc.IH)
      moreover have "length (http_gets (trace ?s')) = length (http_gets (trace s)) + 1"
        by (simp add: emit_def)
      ultimately show ?thesis using RequestException True
        by (simp add: emit_def Let_def)
    next
      case False
      then show ?thesis using RequestException by (simp add: emit_def Let_def)
    qed
  next
    case (OtherException e)
    then show ?thesis by (simp add: emit_def)
  qed
qed

text \<open>Three retryable failures in a row, with retry limit 3: the whole run of the function.\<close>

lemma scrape_url_all_fail:
  assumes "max_retries s = 3" "\<forall>i<3. hp i = RequestException (msg i)" "\<not> dn SAddFailed"
  shows "scrape_url dn hp u s =
     (Inr JNull,
      s\<lparr>trace := trace s @
           [Sleep (request_delay s), HttpGet u,
            Log (AttemptFailed 1 u (msg 0) (real (backoff_factor s ^ 0))),
            Sleep (real (backoff_factor s ^ 0)),
            Sleep (request_delay s), HttpGet u,
            Log (AttemptFailed 2 u (msg 1) (real (backoff_factor s ^ 1))),
            Sleep (real (backoff_factor s ^ 1)),
            Sleep (request_delay s), HttpGet u,
            Log (AttemptFailed 3 u (msg 2) (real (backoff_factor s ^ 2))),
            Log (FailedToScrape u 3)],
        urls_failed := urls_failed s + 1,
        errors := errors s @ [error_entry u (msg 2)],
        failed_set := insert u (failed_set s)\<rparr>)"
proof -
  have h: "hp 0 = RequestException (msg 0)" "hp (Suc 0) = RequestException (msg 1)"
    "hp (Suc (Suc 0)) = RequestException (msg 2)"
    using assms(2) by (simp_all add: numeral_3_eq_3 numeral_2_eq_2)
  show ?thesis
    unfolding scrape_url_def assms(1) numeral_3_eq_3
    using assms(1,3) h
    by (simp add: emit_def Let_def numeral_2_eq_2)
qed

lemma waits_and_gets_simps [simp]:
  "waits_and_gets [] = []"
  "waits_and_gets (HttpGet u # evs) = HttpGet u # waits_and_gets evs"
  "waits_and_gets (Sleep d # evs) = Sleep d # waits_and_gets evs"
  "waits_and_gets (Log m # evs) = waits_and_gets evs"
  by (simp_all add: waits_and_gets_def)

text \<open>
  Whatever the attempts return, what the function sleeps and requests is an initial
  part of one fixed schedule.
\<close>

lemma scrape_url_schedule:
  assumes "max_retries s = 3"
  shows "prefix
     (waits_and_gets (drop (length (trace s)) (trace (snd (scrape_url dn hp u s)))))
     [Sleep (request_delay s), HttpGet u, Sleep (real (backoff_factor s ^ 0)),
      Sleep (request_delay s), HttpGet u, Sleep (real (backoff_factor s ^ 1)),
      Sleep (request_delay s), HttpGet u]"
  unfolding scrape_url_def assms numeral_3_eq_3
  using assms
  by (simp add: emit_def Let_def numeral_2_eq_2 split: outcome.splits)

text \<open>
  C4. With retry limit 3, \<open>scrape_url\<close> sends at most three requests, whatever the
  attempts return, and its sleeps and requests are an initial part of the schedule:
  politeness sleep, request, backoff \<open>backoff_factor ^ 0\<close>, politeness sleep, request,
  backoff \<open>backoff_factor ^ 1\<close>, politeness sleep, request. When the first three attempts all raise a \<open>RequestException\<close> (and
  the store accepts the \<open>SADD\<close>), the function returns \<open>None\<close> after exactly three
  requests, each directly preceded by the politeness sleep, with the backoff sleeps
  \<open>backoff_factor ^ 0\<close> and \<open>backoff_factor ^ 1\<close> between them and none after the third;
  \<open>urls_failed\<close> is incremented, one error entry is appended, and the URL is added to
  the failed set. What a fourth attempt would return plays no part.
\<close>

theorem scrape_url_retry_limit_three:
  assumes "max_retries s = 3"
  shows "length (http_gets (trace (snd (scrape_url dn hp u s))))
           \<le> length (http_gets (trace s)) + 3
       \<and> prefix
            (waits_and_gets (drop (length (trace s)) (trace (snd (scrape_url dn hp u s)))))
            [Sleep (request_delay s), HttpGet u, Sleep (real (backoff_factor s ^ 0)),
             Sleep (request_delay s), HttpGet u, Sleep (real (backoff_factor s ^ 1)),
             Sleep (request_delay s), HttpGet u]
       \<and> ((\<forall>i<3. hp i = RequestException (msg i)) \<and> \<not> dn SAddFailed \<longrightarrow>
            scrape_url dn hp u s =
              (Inr JNull,
               s\<lparr>trace := trace s @
                    [Sleep (request_delay s), HttpGet u,
                     Log (AttemptFailed 1 u (msg 0) (real (backoff_factor s ^ 0))),
                     Sleep (real (backoff_factor s ^ 0)),
                     Sleep (request_delay s), HttpGet u,
                     Log (AttemptFailed 2 u (msg 1) (real (backoff_factor s ^ 1))),
                     Sleep (real (backoff_factor s ^ 1)),
                     Sleep (request_delay s), HttpGet u,
                     Log (AttemptFailed 3 u (msg 2) (real (backoff_factor s ^ 2))),
                     Log (FailedToScrape u 3)],
                 urls_failed := urls_failed s + 1,
                 errors := errors s @ [error_entry u (msg 2)],
                 failed_set := insert u (failed_set s)\<rparr>))"
proof (intro conjI impI)
  show "length (http_gets (trace (snd (scrape_url dn hp u s))))
          \<le> length (http_gets (trace s)) + 3"
    using scrape_loop_gets [of dn hp u 3 0 s] assms by (simp add: scrape_url_def)
next
  show "prefix
            (waits_and_gets (drop (length (trace s)) (trace (snd (scrape_url dn hp u s)))))
            [Sleep (request_delay s), HttpGet u, Sleep (real (backoff_factor s ^ 0)),
             Sleep (request_delay s), HttpGet u, Sleep (real (backoff_factor s ^ 1)),
             Sleep (request_delay s), HttpGet u]"
    by (rule scrape_url_schedule [OF assms])
next
  assume "(\<forall>i<3. hp i = RequestException (msg i)) \<and> \<not> dn SAddFailed"
  then show "scrape_url dn hp u s =
              (Inr JNull,
               s\<lparr>trace := trace s @
                    [Sleep (request_delay s), HttpGet u,
                     Log (AttemptFailed 1 u (msg 0) (real (backoff_factor s ^ 0))),
                     Sleep (real (backoff_factor s ^ 0)),
                     Sleep (request_delay s), HttpGet u,
                     Log (AttemptFailed 2 u (msg 1) (real (backoff_factor s ^ 1))),
                     Sleep (real (backoff_factor s ^ 1)),
                     Sleep (request_delay s), HttpGet u,
                     Log (AttemptFailed 3 u (msg 2) (real (backoff_factor s ^ 2))),
                     Log (FailedToScrape u 3)],
                 urls_failed := urls_failed s + 1,
                 errors := errors s @ [error_entry u (msg 2)],
                 failed_set := insert u (failed_set s)\<rparr>)"
    using scrape_url_all_fail [OF assms, of hp msg dn u] by blast
qed

theorem scrape_url_retry_limit_three_witness:
  "max_retries (init_scraper ''http://x/'' 0 [] {} {} Map.empty) = 3
   \<and> snd (scrape_url (\<lambda>c. False)
        (\<lambda>i. if i < 3 then RequestException ''503'' else Response (JObj [(''name'', JStr ''x'')]))
        ''http://x/films/1/'' (init_scraper ''http://x/'' 0 [] {} {} Map.empty))
     = (init_scraper ''http://x/'' 0 [] {} {} Map.empty)
         \<lparr>trace :=
            [Sleep (1 / 2), HttpGet ''http://x/films/1/'',
             Log (AttemptFailed 1 ''http://x/films/1/'' ''503'' 1), Sleep 1,
             Sleep (1 / 2), HttpGet ''http://x/films/1/'',
             Log (AttemptFailed 2 ''http://x/films/1/'' ''503'' 2), Sleep 2,
             Sleep (1 / 2), HttpGet ''http://x/films/1/'',
             Log (AttemptFailed 3 ''http://x/films/1/'' ''503'' 4),
             Log (FailedToScrape ''http://x/films/1/'' 3)],
          urls_failed := 1,
          errors := [''http://x/films/1/: 503''],
          failed_set := {''http://x/films/1/''}\<rparr>"
proof -
  let ?s = "init_scraper ''http://x/'' 0 [] {} {} Map.empty"
  let ?hp = "\<lambda>i::nat. if i < 3 then RequestException ''503''
                      else Response (JObj [(''name'', JStr ''x'')])"
  have m: "max_retries ?s = 3" by (simp add: init_scraper_def)
  have f: "(\<forall>i<3. ?hp i = RequestException ((\<lambda>_. ''503'') i)) \<and> \<not> (\<lambda>c. False) SAddFailed"
    by simp
  from scrape_url_retry_limit_three [OF m, of "\<lambda>c. False" ?hp "''http://x/films/1/''" "\<lambda>_. ''503''"] f
  have "scrape_url (\<lambda>c. False) ?hp ''http://x/films/1/'' ?s =
     (Inr JNull,
      ?s\<lparr>trace := trace ?s @
           [Sleep (request_delay ?s), HttpGet ''http://x/films/1/'',
            Log (AttemptFailed 1 ''http://x/films/1/'' ''503'' (real (backoff_factor ?s ^ 0))),
            Sleep (real (backoff_factor ?s ^ 0)),
            Sleep (request_delay ?s), HttpGet ''http://x/films/1/'',
            Log (AttemptFailed 2 ''http://x/films/1/'' ''503'' (real (backoff_factor ?s ^ 1))),
            Sleep (real (backoff_factor ?s ^ 1)),
            Sleep (request_delay ?s), HttpGet ''http://x/films/1/'',
            Log (AttemptFailed 3 ''http://x/films/1/'' ''503'' (real (backoff_factor ?s ^ 2))),
            Log (FailedToScrape ''http://x/films/1/'' 3)],
        urls_failed := urls_failed ?s + 1,
        errors := errors ?s @ [error_entry ''http://x/films/1/'' ''503''],
        failed_set := insert ''http://x/films/1/'' (failed_set ?s)\<rparr>)"
    by blast
  then show ?thesis
    by (simp add: init_scraper_def error_entry_def)
qed

section \<open>Facts about the store and the enqueue loop\<close>

lemma zscore_zadd_other: "v \<noteq> u \<Longrightarrow> zscore (zadd q v sc) u = zscore q u"
proof (cases "v \<in> fst ` set q")
  case True
  assume "v \<noteq> u"
  then have "map_of (map (\<lambda>(m, x). if m = v then (m, sc) else (m, x)) q) u = map_of q u"
    by (induction q) auto
  with True show ?thesis by (simp add: zscore_def zadd_def)
next
  case False
  assume "v \<noteq> u"
  with False show ?thesis by (simp add: zscore_def zadd_def map_add_def split: option.splits)
qed

lemma zscore_zadd_same: "zscore (zadd q u sc) u = Some sc"
proof (cases "u \<in> fst ` set q")
  case True
  then have "map_of (map (\<lambda>(m, x). if m = u then (m, sc) else (m, x)) q) u = Some sc"
    by (induction q) auto
  with True show ?thesis by (simp add: zscore_def zadd_def)
next
  case False
  then have "map_of q u = None" by (simp add: map_of_eq_None_iff)
  with False show ?thesis by (simp add: zscore_def zadd_def map_add_def)
qed

lemma zscore_None_iff: "zscore q u = None \<longleftrightarrow> u \<notin> fst ` set q"
  by (simp add: zscore_def map_of_eq_None_iff)

lemma members_zadd: "fst ` set (zadd q u sc) = insert u (fst ` set q)"
proof -
  have "fst ` set (zadd q u sc) = {v. zscore (zadd q u sc) v \<noteq> None}"
    by (auto simp: zscore_None_iff)
  also have "\<dots> = insert u {v. zscore q v \<noteq> None}"
  proof -
    have "zscore (zadd q u sc) v \<noteq> None \<longleftrightarrow> v = u \<or> zscore q v \<noteq> None" for v
      by (cases "v = u") (simp_all add: zscore_zadd_same zscore_zadd_other)
    then show ?thesis by blast
  qed
  also have "\<dots> = insert u (fst ` set q)"
    by (auto simp: zscore_None_iff)
  finally show ?thesis .
qed

lemma set_zadd: "set (zadd q u sc) \<subseteq> insert (u, sc) (set q)"
  by (auto simp: zadd_def split: if_splits)

lemma calculate_url_score_fst:
  "fst (calculate_url_score u d s) =
     score_value (type_priorities (resource_type_of (root_url s) u)) d (url_counter s + 1)"
  by (simp add: calculate_url_score_def Let_def)

lemma add_urls_loop_frame:
  "errors (snd (add_urls_loop dn i urls depth n s)) = errors s"
  "completed_set (snd (add_urls_loop dn i urls depth n s)) = completed_set s"
  "failed_set (snd (add_urls_loop dn i urls depth n s)) = failed_set s"
  "stop_event (snd (add_urls_loop dn i urls depth n s)) = stop_event s"
  "trace (snd (add_urls_loop dn i urls depth n s)) = trace s"
  "last_new_url_time (snd (add_urls_loop dn i urls depth n s)) = last_new_url_time s"
  "root_url (snd (add_urls_loop dn i urls depth n s)) = root_url s"
  by (induction urls arbitrary: i n s; simp add: calculate_url_score_def Let_def)+

lemma add_new_urls_frame:
  "errors (snd (add_new_urls dn urls depth now s)) = errors s"
  "completed_set (snd (add_new_urls dn urls depth now s)) = completed_set s"
  "failed_set (snd (add_new_urls dn urls depth now s)) = failed_set s"
  "stop_event (snd (add_new_urls dn urls depth now s)) = stop_event s"
  "trace (snd (add_new_urls dn urls depth now s)) = trace s"
  "root_url (snd (add_new_urls dn urls depth now s)) = root_url s"
  using add_urls_loop_frame [of dn 0 urls depth 0 s]
  by (auto simp: add_new_urls_def split: prod.splits sum.splits)

text \<open>URLs that are completed or pending pass through the enqueue loop untouched.\<close>

lemma add_urls_loop_known:
  assumes "\<forall>u\<in>set urls. u \<in> completed_set s \<or> zscore (pending_queue s) u \<noteq> None"
  shows "snd (add_urls_loop dn i urls depth n s) = s
       \<and> (fst (add_urls_loop dn i urls depth n s) = Inr n
          \<or> fst (add_urls_loop dn i urls depth n s) = Inl RedisError)"
  using assms by (induction urls arbitrary: i) auto

lemma add_urls_loop_zscore:
  assumes "u \<in> completed_set s \<or> zscore (pending_queue s) u \<noteq> None"
  shows "zscore (pending_queue (snd (add_urls_loop dn i urls depth n s))) u
           = zscore (pending_queue s) u"
  using assms
proof (induction urls arbitrary: i n s)
  case Nil
  then show ?case by simp
next
  case (Cons v urls)
  show ?case
  proof (cases "v = u")
    case True
    with Cons show ?thesis by (auto simp: Let_def)
  next
    case False
    let ?s1 = "(s\<lparr>url_counter := url_counter s + 1\<rparr>)\<lparr>pending_queue :=
           zadd (pending_queue s) v (fst (calculate_url_score v depth s))\<rparr>"
    have k: "u \<in> completed_set ?s1 \<or> zscore (pending_queue ?s1) u \<noteq> None"
      using Cons.prems False by (simp add: zscore_zadd_other)
    have z: "zscore (pending_queue ?s1) u = zscore (pending_queue s) u"
      using False by (simp add: zscore_zadd_other)
    show ?thesis
      using Cons.IH [OF k] Cons.IH [OF Cons.prems] z
      by (simp add: Let_def calculate_url_score_def)
  qed
qed

lemma add_urls_loop_counter:
  "fst (add_urls_loop dn i urls depth n s) = Inr m \<Longrightarrow>
     n \<le> m \<and> url_counter (snd (add_urls_loop dn i urls depth n s)) = url_counter s + int (m - n)"
proof (induction urls arbitrary: i n s)
  case Nil
  then show ?case by simp
next
  case (Cons v urls)
  show ?case
  proof (cases "v \<notin> completed_set s \<and> zscore (pending_queue s) v = None")
    case True
    let ?s1 = "(s\<lparr>url_counter := url_counter s + 1\<rparr>)\<lparr>pending_queue :=
           zadd (pending_queue s) v (fst (calculate_url_score v depth s))\<rparr>"
    from Cons.prems True have nd: "\<not> dn (SIsMemberNew i)" "\<not> dn (ZScoreNew i)" "\<not> dn (ZAddNew i)"
      by (auto simp: Let_def calculate_url_score_def split: if_splits)
    with Cons.prems True
    have "fst (add_urls_loop dn (Suc i) urls depth (Suc n) ?s1) = Inr m"
      by (simp add: Let_def calculate_url_score_def)
    from Cons.IH [OF this] show ?thesis using True nd
      by (simp add: Let_def calculate_url_score_def)
  next
    case False
    from Cons.prems False have nd: "\<not> dn (SIsMemberNew i)" "\<not> dn (ZScoreNew i)"
      by (auto simp: Let_def split: if_splits)
    with Cons.prems False have "fst (add_urls_loop dn (Suc i) urls depth n s) = Inr m"
      by (auto simp: Let_def)
    from Cons.IH [OF this] show ?thesis using False nd by (auto simp: Let_def)
  qed
qed

lemma add_urls_loop_no_fault:
  "\<forall>c. \<not> dn c \<Longrightarrow> \<exists>m. fst (add_urls_loop dn i urls depth n s) = Inr m"
  by (induction urls arbitrary: i n s) (simp_all add: Let_def calculate_url_score_def)

text \<open>
  C7. \<open>add_new_urls\<close> on URLs that are already completed or already pending is a
  no-op: when every URL of the list is known, the whole state is returned unchanged
  (nothing inserted, no score changed, the counter and \<open>last_new_url_time\<close> as they
  were) and the count is 0, unless a Redis command raised. In any list, a known URL
  keeps its pending score, or stays absent from the queue if it was completed and not
  pending; and when the call returns a count, the counter has advanced by exactly that
  count and \<open>last_new_url_time\<close> is set only if the count is positive.
\<close>

theorem add_new_urls_known_is_noop:
  "((\<forall>v\<in>set urls. v \<in> completed_set s \<or> zscore (pending_queue s) v \<noteq> None) \<longrightarrow>
      snd (add_new_urls dn urls depth now s) = s
      \<and> (fst (add_new_urls dn urls depth now s) = Inr 0
         \<or> fst (add_new_urls dn urls depth now s) = Inl RedisError))
   \<and> (u \<in> completed_set s \<or> zscore (pending_queue s) u \<noteq> None \<longrightarrow>
        zscore (pending_queue (snd (add_new_urls dn mixed depth now s))) u
          = zscore (pending_queue s) u)
   \<and> (fst (add_new_urls dn mixed depth now s) = Inr m \<longrightarrow>
        url_counter (snd (add_new_urls dn mixed depth now s)) = url_counter s + int m
        \<and> last_new_url_time (snd (add_new_urls dn mixed depth now s))
            = (if m > 0 then now else last_new_url_time s))"
proof (intro conjI impI)
  assume k: "\<forall>v\<in>set urls. v \<in> completed_set s \<or> zscore (pending_queue s) v \<noteq> None"
  from add_urls_loop_known [OF k, of dn 0 depth 0]
  show "snd (add_new_urls dn urls depth now s) = s"
    and "fst (add_new_urls dn urls depth now s) = Inr 0
         \<or> fst (add_new_urls dn urls depth now s) = Inl RedisError"
    by (auto simp: add_new_urls_def split: prod.splits sum.splits)
next
  assume k: "u \<in> completed_set s \<or> zscore (pending_queue s) u \<noteq> None"
  from add_urls_loop_zscore [OF k, of dn 0 mixed depth 0]
  show "zscore (pending_queue (snd (add_new_urls dn mixed depth now s))) u
          = zscore (pending_queue s) u"
    by (auto simp: add_new_urls_def split: prod.splits sum.splits)
next
  assume r: "fst (add_new_urls dn mixed depth now s) = Inr m"
  then have l: "fst (add_urls_loop dn 0 mixed depth 0 s) = Inr m"
    by (auto simp: add_new_urls_def split: prod.splits sum.splits)
  from add_urls_loop_counter [OF l] add_urls_loop_frame(6) [of dn 0 mixed depth 0 s] l
  show "url_counter (snd (add_new_urls dn mixed depth now s)) = url_counter s + int m"
    and "last_new_url_time (snd (add_new_urls dn mixed depth now s))
            = (if m > 0 then now else last_new_url_time s)"
    by (auto simp: add_new_urls_def split: prod.splits sum.splits)
qed

theorem add_new_urls_known_is_noop_witness:
  "snd (add_new_urls (\<lambda>c. False) [''http://x/films/1/'', ''http://x/films/2/''] 4 7
        (init_scraper ''http://x/'' 0 [(''http://x/films/1/'', 100001 / 1000)]
           {''http://x/films/2/''} {} Map.empty))
     = init_scraper ''http://x/'' 0 [(''http://x/films/1/'', 100001 / 1000)]
           {''http://x/films/2/''} {} Map.empty
   \<and> zscore (pending_queue (snd (add_new_urls (\<lambda>c. False)
          [''http://x/films/1/'', ''http://x/films/3/'', ''http://x/films/2/''] 4 7
          (init_scraper ''http://x/'' 0 [(''http://x/films/1/'', 100001 / 1000)]
             {''http://x/films/2/''} {} Map.empty)))) ''http://x/films/1/''
       = Some (100001 / 1000)
   \<and> url_counter (snd (add_new_urls (\<lambda>c. False)
          [''http://x/films/1/'', ''http://x/films/3/'', ''http://x/films/2/''] 4 7
          (init_scraper ''http://x/'' 0 [(''http://x/films/1/'', 100001 / 1000)]
             {''http://x/films/2/''} {} Map.empty))) = 1
   \<and> last_new_url_time (snd (add_new_urls (\<lambda>c. False)
          [''http://x/films/1/'', ''http://x/films/3/'', ''http://x/films/2/''] 4 7
          (init_scraper ''http://x/'' 0 [(''http://x/films/1/'', 100001 / 1000)]
             {''http://x/films/2/''} {} Map.empty))) = 7"
proof -
  let ?s = "init_scraper ''http://x/'' 0 [(''http://x/films/1/'', 100001 / 1000)]
           {''http://x/films/2/''} {} Map.empty"
  let ?known = "[''http://x/films/1/'', ''http://x/films/2/'']"
  let ?mixed = "[''http://x/films/1/'', ''http://x/films/3/'', ''http://x/films/2/'']"
  have z: "zscore (pending_queue ?s) ''http://x/films/1/'' = Some (100001 / 1000)"
    by (simp add: init_scraper_def zscore_def)
  have h2: "''http://x/films/1/'' \<in> completed_set ?s
            \<or> zscore (pending_queue ?s) ''http://x/films/1/'' \<noteq> None"
    using z by simp
  have "''http://x/films/2/'' \<in> completed_set ?s" by (simp add: init_scraper_def)
  with h2 have h1: "\<forall>v\<in>set ?known. v \<in> completed_set ?s \<or> zscore (pending_queue ?s) v \<noteq> None"
    by simp
  have h3: "fst (add_new_urls (\<lambda>c. False) ?mixed 4 7 ?s) = Inr 1"
    by (simp add: add_new_urls_def init_scraper_def zscore_def calculate_url_score_def
        zadd_def Let_def)
  have c: "url_counter ?s = 0" by (simp add: init_scraper_def)
  note T = add_new_urls_known_is_noop
         [of ?known ?s "\<lambda>c. False" 4 7 "''http://x/films/1/''" ?mixed 1]
  from T h1 have a: "snd (add_new_urls (\<lambda>c. False) ?known 4 7 ?s) = ?s" by blast
  from T h2 have "zscore (pending_queue (snd (add_new_urls (\<lambda>c. False) ?mixed 4 7 ?s)))
      ''http://x/films/1/'' = zscore (pending_queue ?s) ''http://x/films/1/''" by blast
  with z have b: "zscore (pending_queue (snd (add_new_urls (\<lambda>c. False) ?mixed 4 7 ?s)))
      ''http://x/films/1/'' = Some (100001 / 1000)" by simp
  from T h3 have "url_counter (snd (add_new_urls (\<lambda>c. False) ?mixed 4 7 ?s))
        = url_counter ?s + int 1
      \<and> last_new_url_time (snd (add_new_urls (\<lambda>c. False) ?mixed 4 7 ?s))
        = (if (1::nat) > 0 then 7 else last_new_url_time ?s)" by blast
  with c have d: "url_counter (snd (add_new_urls (\<lambda>c. False) ?mixed 4 7 ?s)) = 1"
    "last_new_url_time (snd (add_new_urls (\<lambda>c. False) ?mixed 4 7 ?s)) = 7" by simp_all
  from a b d show ?thesis by blast
qed

section \<open>What seeding leaves in the store\<close>

lemma seed_loop_frame:
  "completed_set (snd (seed_loop dn i seeds s)) = completed_set s"
  "failed_set (snd (seed_loop dn i seeds s)) = failed_set s"
  "data_store (snd (seed_loop dn i seeds s)) = data_store s"
  "root_url (snd (seed_loop dn i seeds s)) = root_url s"
  by (induction seeds arbitrary: i s; simp add: calculate_url_score_def Let_def)+

lemma seed_loop_no_fault:
  "\<forall>c. \<not> dn c \<Longrightarrow> fst (seed_loop dn i seeds s) = Inr ()"
  by (induction seeds arbitrary: i s) (simp_all add: Let_def calculate_url_score_def)

lemma seed_loop_members:
  "fst (seed_loop dn i seeds s) = Inr () \<Longrightarrow>
     fst ` set (pending_queue (snd (seed_loop dn i seeds s)))
       = fst ` set (pending_queue s) \<union> set seeds
     \<and> url_counter (snd (seed_loop dn i seeds s)) = url_counter s + int (length seeds)"
proof (induction seeds arbitrary: i s)
  case Nil
  then show ?case by simp
next
  case (Cons v seeds)
  let ?s1 = "(s\<lparr>url_counter := url_counter s + 1\<rparr>)\<lparr>pending_queue :=
         zadd (pending_queue s) v (fst (calculate_url_score v 0 s))\<rparr>"
  from Cons.prems have nd: "\<not> dn (ZAddSeed i)"
    by (auto simp: Let_def calculate_url_score_def split: if_splits)
  with Cons.prems have "fst (seed_loop dn (Suc i) seeds ?s1) = Inr ()"
    by (simp add: Let_def calculate_url_score_def)
  from Cons.IH [OF this] show ?case using nd
    by (simp add: Let_def calculate_url_score_def members_zadd)
qed

text \<open>Every entry of the queue after seeding is an old entry or carries a depth-0 score.\<close>

lemma seed_loop_scores:
  "fst (seed_loop dn i seeds s) = Inr () \<Longrightarrow>
   (v, sc) \<in> set (pending_queue (snd (seed_loop dn i seeds s))) \<Longrightarrow>
   (v, sc) \<in> set (pending_queue s)
   \<or> (\<exists>c. url_counter s < c \<and> c \<le> url_counter s + int (length seeds)
          \<and> sc = score_value (type_priorities (resource_type_of (root_url s) v)) 0 c)"
proof (induction seeds arbitrary: i s)
  case Nil
  then show ?case by simp
next
  case (Cons w seeds)
  let ?sc = "fst (calculate_url_score w 0 s)"
  let ?s1 = "(s\<lparr>url_counter := url_counter s + 1\<rparr>)\<lparr>pending_queue :=
         zadd (pending_queue s) w ?sc\<rparr>"
  from Cons.prems(1) have nd: "\<not> dn (ZAddSeed i)"
    by (auto simp: Let_def calculate_url_score_def split: if_splits)
  with Cons.prems(1) have r: "fst (seed_loop dn (Suc i) seeds ?s1) = Inr ()"
    by (simp add: Let_def calculate_url_score_def)
  from Cons.prems(2) nd have m: "(v, sc) \<in> set (pending_queue (snd (seed_loop dn (Suc i) seeds ?s1)))"
    by (simp add: Let_def calculate_url_score_def)
  from Cons.IH [OF r m]
  consider (old) "(v, sc) \<in> set (pending_queue ?s1)"
    | (new) c where "url_counter ?s1 < c" "c \<le> url_counter ?s1 + int (length seeds)"
        "sc = score_value (type_priorities (resource_type_of (root_url ?s1) v)) 0 c"
    by blast
  then show ?case
  proof cases
    case old
    then have "(v, sc) = (w, ?sc) \<or> (v, sc) \<in> set (pending_queue s)"
      using set_zadd [of "pending_queue s" w ?sc] by auto
    then show ?thesis
    proof
      assume "(v, sc) = (w, ?sc)"
      then have "sc = score_value (type_priorities (resource_type_of (root_url s) v)) 0
                        (url_counter s + 1)"
        by (simp add: calculate_url_score_fst)
      then show ?thesis by (intro disjI2 exI [of _ "url_counter s + 1"]) simp
    next
      assume "(v, sc) \<in> set (pending_queue s)"
      then show ?thesis by simp
    qed
  next
    case new
    then show ?thesis by (intro disjI2 exI [of _ c]) simp
  qed
qed

lemma map_fst_zadd_member:
  "u \<in> fst ` set q \<Longrightarrow> map fst (zadd q u sc) = map fst q"
  by (induction q) (auto simp: zadd_def)

lemma distinct_zadd: "distinct (map fst q) \<Longrightarrow> distinct (map fst (zadd q u sc))"
proof (cases "u \<in> fst ` set q")
  case True
  assume "distinct (map fst q)"
  then show ?thesis using True by (simp add: map_fst_zadd_member)
next
  case False
  assume "distinct (map fst q)"
  then show ?thesis using False by (simp add: zadd_def)
qed

lemma seed_loop_distinct:
  "distinct (map fst (pending_queue s)) \<Longrightarrow>
     distinct (map fst (pending_queue (snd (seed_loop dn i seeds s))))"
proof (induction seeds arbitrary: i s)
  case Nil
  then show ?case by simp
next
  case (Cons v seeds)
  let ?s1 = "(s\<lparr>url_counter := url_counter s + 1\<rparr>)\<lparr>pending_queue :=
         zadd (pending_queue s) v (fst (calculate_url_score v 0 s))\<rparr>"
  have "distinct (map fst (pending_queue ?s1))"
    using Cons.prems by (simp add: distinct_zadd)
  from Cons.IH [OF this] Cons.prems show ?case
    by (simp add: Let_def calculate_url_score_def)
qed

text \<open>
  C10. \<open>initialize_redis\<close> returns normally whenever no Redis command raises, and
  whenever it returns normally the completed set, the failed set and the record store
  are empty and the pending queue holds exactly the seed URLs, each once and with a
  score of depth 0 (its type priority times 100 plus one of the counter values drawn during
  the seeding, times 0.001), whatever the three keys and the record store held before.
\<close>

theorem initialize_redis_clears_and_seeds:
  "((\<forall>c. \<not> dn c) \<longrightarrow> fst (initialize_redis dn seeds s) = Inr ())
   \<and> (fst (initialize_redis dn seeds s) = Inr () \<longrightarrow>
        completed_set (snd (initialize_redis dn seeds s)) = {}
        \<and> failed_set (snd (initialize_redis dn seeds s)) = {}
        \<and> data_store (snd (initialize_redis dn seeds s)) = Map.empty
        \<and> fst ` set (pending_queue (snd (initialize_redis dn seeds s))) = set seeds
        \<and> distinct (map fst (pending_queue (snd (initialize_redis dn seeds s))))
        \<and> (\<forall>(v, sc) \<in> set (pending_queue (snd (initialize_redis dn seeds s))).
              \<exists>c. url_counter s < c \<and> c \<le> url_counter s + int (length seeds)
                \<and> sc = score_value (type_priorities (resource_type_of (root_url s) v)) 0 c))"
proof (intro conjI impI)
  assume "\<forall>c. \<not> dn c"
  then show "fst (initialize_redis dn seeds s) = Inr ()"
    by (simp add: initialize_redis_def seed_loop_no_fault)
next
  assume r: "fst (initialize_redis dn seeds s) = Inr ()"
  let ?s1 = "s\<lparr>pending_queue := [], completed_set := {}, failed_set := {},
               data_store := Map.empty\<rparr>"
  from r have nd: "\<not> dn Delete" "\<not> dn ScanDelete"
    by (auto simp: initialize_redis_def Let_def split: if_splits)
  then have e: "initialize_redis dn seeds s = seed_loop dn 0 seeds ?s1"
    by (simp add: initialize_redis_def)
  with r have l: "fst (seed_loop dn 0 seeds ?s1) = Inr ()" by simp
  show "completed_set (snd (initialize_redis dn seeds s)) = {}"
    and "failed_set (snd (initialize_redis dn seeds s)) = {}"
    and "data_store (snd (initialize_redis dn seeds s)) = Map.empty"
    unfolding e by (simp_all add: seed_loop_frame)
  show "fst ` set (pending_queue (snd (initialize_redis dn seeds s))) = set seeds"
    unfolding e using seed_loop_members [OF l] by simp
  show "distinct (map fst (pending_queue (snd (initialize_redis dn seeds s))))"
    unfolding e by (rule seed_loop_distinct) simp
  show "\<forall>(v, sc) \<in> set (pending_queue (snd (initialize_redis dn seeds s))).
              \<exists>c. url_counter s < c \<and> c \<le> url_counter s + int (length seeds)
                \<and> sc = score_value (type_priorities (resource_type_of (root_url s) v)) 0 c"
    unfolding e using seed_loop_scores [OF l] by fastforce
qed

theorem initialize_redis_clears_and_seeds_witness:
  "fst (initialize_redis (\<lambda>c. False) [''http://x/films/1/'', ''http://x/people/1/'']
        (init_scraper ''http://x/'' 0 [(''http://x/old/'', 5)] {''http://x/done/''}
           {''http://x/bad/''} [''old'' \<mapsto> \<lparr>sd_url = ''http://x/old'', scraped_at = 1, sd_data = JNull\<rparr>]))
     = Inr ()
   \<and> completed_set (snd (initialize_redis (\<lambda>c. False)
        [''http://x/films/1/'', ''http://x/people/1/'']
        (init_scraper ''http://x/'' 0 [(''http://x/old/'', 5)] {''http://x/done/''}
           {''http://x/bad/''} [''old'' \<mapsto> \<lparr>sd_url = ''http://x/old'', scraped_at = 1, sd_data = JNull\<rparr>]))) = {}
   \<and> failed_set (snd (initialize_redis (\<lambda>c. False)
        [''http://x/films/1/'', ''http://x/people/1/'']
        (init_scraper ''http://x/'' 0 [(''http://x/old/'', 5)] {''http://x/done/''}
           {''http://x/bad/''} [''old'' \<mapsto> \<lparr>sd_url = ''http://x/old'', scraped_at = 1, sd_data = JNull\<rparr>]))) = {}
   \<and> data_store (snd (initialize_redis (\<lambda>c. False)
        [''http://x/films/1/'', ''http://x/people/1/'']
        (init_scraper ''http://x/'' 0 [(''http://x/old/'', 5)] {''http://x/done/''}
           {''http://x/bad/''} [''old'' \<mapsto> \<lparr>sd_url = ''http://x/old'', scraped_at = 1, sd_data = JNull\<rparr>]))) = Map.empty
   \<and> fst ` set (pending_queue (snd (initialize_redis (\<lambda>c. False)
        [''http://x/films/1/'', ''http://x/people/1/'']
        (init_scraper ''http://x/'' 0 [(''http://x/old/'', 5)] {''http://x/done/''}
           {''http://x/bad/''} [''old'' \<mapsto> \<lparr>sd_url = ''http://x/old'', scraped_at = 1, sd_data = JNull\<rparr>]))))
       = {''http://x/films/1/'', ''http://x/people/1/''}"
proof -
  let ?s = "init_scraper ''http://x/'' 0 [(''http://x/old/'', 5)] {''http://x/done/''}
           {''http://x/bad/''} [''old'' \<mapsto> \<lparr>sd_url = ''http://x/old'', scraped_at = 1, sd_data = JNull\<rparr>]"
  let ?seeds = "[''http://x/films/1/'', ''http://x/people/1/'']"
  note T = initialize_redis_clears_and_seeds [of "\<lambda>c. False" ?seeds ?s]
  have nd: "\<forall>c. \<not> (\<lambda>c. False) c" by simp
  from T nd have r: "fst (initialize_redis (\<lambda>c. False) ?seeds ?s) = Inr ()" by blast
  from T r have
    "completed_set (snd (initialize_redis (\<lambda>c. False) ?seeds ?s)) = {}"
    "failed_set (snd (initialize_redis (\<lambda>c. False) ?seeds ?s)) = {}"
    "data_store (snd (initialize_redis (\<lambda>c. False) ?seeds ?s)) = Map.empty"
    "fst ` set (pending_queue (snd (initialize_redis (\<lambda>c. False) ?seeds ?s))) = set ?seeds"
    by blast+
  with r show ?thesis by simp
qed

section \<open>Facts about one iteration of the worker\<close>

lemma zpopmin_None_iff: "zpopmin q = None \<longleftrightarrow> q = []"
  by (cases q) (simp_all add: zpopmin_def Let_def)

lemma scrape_loop_frame:
  "stop_event (snd (scrape_loop dn hp u left attempt s)) = stop_event s"
  "completed_set (snd (scrape_loop dn hp u left attempt s)) = completed_set s"
  "pending_queue (snd (scrape_loop dn hp u left attempt s)) = pending_queue s"
  "root_url (snd (scrape_loop dn hp u left attempt s)) = root_url s"
  "max_retries (snd (scrape_loop dn hp u left attempt s)) = max_retries s"
  by (induction left arbitrary: attempt s;
      simp add: emit_def Let_def split: outcome.splits)+

lemma scrape_loop_errors:
  "prefix (errors s) (errors (snd (scrape_loop dn hp u left attempt s)))
   \<and> length (errors (snd (scrape_loop dn hp u left attempt s))) \<le> length (errors s) + 1"
proof (induction left arbitrary: attempt s)
  case 0
  then show ?case by simp
next
  case (Suc left)
  show ?case
  proof (cases "hp attempt")
    case (Response d)
    then show ?thesis by (simp add: emit_def)
  next
    case (RequestException x)
    show ?thesis
    proof (cases "int attempt < int (max_retries s) - 1")
      case True
      let ?s' = "emit [Sleep (real (backoff_factor s ^ attempt))]
          (emit [Log (AttemptFailed (attempt + 1) u x (real (backoff_factor s ^ attempt)))]
            (emit [Sleep (request_delay s), HttpGet u] s))"
      have e: "errors ?s' = errors s" by (simp add: emit_def)
      from Suc.IH [of ?s' "attempt + 1"] show ?thesis
        unfolding e using RequestException True by (simp add: emit_def Let_def)
    next
      case False
      then show ?thesis using RequestException by (simp add: emit_def Let_def)
    qed
  next
    case (OtherException x)
    then show ?thesis by (simp add: emit_def)
  qed
qed

lemma scrape_url_frame:
  "stop_event (snd (scrape_url dn hp u s)) = stop_event s"
  "completed_set (snd (scrape_url dn hp u s)) = completed_set s"
  "pending_queue (snd (scrape_url dn hp u s)) = pending_queue s"
  "root_url (snd (scrape_url dn hp u s)) = root_url s"
  "max_retries (snd (scrape_url dn hp u s)) = max_retries s"
  by (simp_all add: scrape_url_def scrape_loop_frame)

lemma scrape_url_errors:
  "prefix (errors s) (errors (snd (scrape_url dn hp u s)))"
  "length (errors (snd (scrape_url dn hp u s))) \<le> length (errors s) + 1"
  using scrape_loop_errors [of s dn hp u "max_retries s" 0] by (simp_all add: scrape_url_def)

lemma save_response_data_frame:
  "stop_event (save_response_data dn now u data s) = stop_event s"
  "errors (save_response_data dn now u data s) = errors s"
  "root_url (save_response_data dn now u data s) = root_url s"
  "completed_set (save_response_data dn now u data s) = completed_set s"
  "failed_set (save_response_data dn now u data s) = failed_set s"
  "pending_queue (save_response_data dn now u data s) = pending_queue s"
  by (simp_all add: save_response_data_def emit_def Let_def)

text \<open>The state after the try block, by the way the block ends.\<close>

lemma try_body_errors: "prefix (errors s) (errors (snd (try_body e s)))"
proof -
  have a: "prefix (errors s) (errors (snd (scrape_url dn hp u (s\<lparr>pending_queue := q\<rparr>))))"
    for dn hp u q
    using scrape_url_errors(1) [of "s\<lparr>pending_queue := q\<rparr>" dn hp u] by simp
  have b: "scrape_url dn hp u (s\<lparr>pending_queue := q\<rparr>) = (r, s2) \<Longrightarrow> prefix (errors s) (errors s2)"
    for dn hp u q r s2
    using a [of dn hp u q] by simp
  have c: "add_new_urls dn urls d now s3 = (r, s4) \<Longrightarrow> errors s4 = errors s3"
    for dn urls d now s3 r s4
    using add_new_urls_frame(1) [of dn urls d now s3] by simp
  show ?thesis
    by (auto simp: try_body_def Let_def emit_def save_response_data_frame
        split: option.splits prod.splits sum.splits dest!: b c)
qed

lemma try_body_stop:
  "stop_event (snd (try_body e s)) = (stop_event s \<or> fst (try_body e s) = Inr Break)"
proof -
  have b: "scrape_url dn hp u s1 = (r, s2) \<Longrightarrow> stop_event s2 = stop_event s1"
    for dn hp u s1 r s2
    using scrape_url_frame(1) [of dn hp u s1] by simp
  have c: "add_new_urls dn urls d now s3 = (r, s4) \<Longrightarrow> stop_event s4 = stop_event s3"
    for dn urls d now s3 r s4
    using add_new_urls_frame(4) [of dn urls d now s3] by simp
  show ?thesis
    by (auto simp: try_body_def Let_def emit_def save_response_data_frame
        split: option.splits prod.splits sum.splits dest!: b c)
qed

lemma try_body_break_iff:
  "fst (try_body e s) = Inr Break \<longleftrightarrow>
     \<not> redis_down e ZPopMin \<and> pending_queue s = []
     \<and> t_idle e - last_new_url_time s > no_new_urls_timeout s"
  by (auto simp: try_body_def Let_def zpopmin_None_iff [symmetric]
      split: option.splits prod.splits sum.splits)

section \<open>Facts about the worker loop\<close>

lemma worker_iteration_errors: "prefix (errors s) (errors (snd (worker_iteration e s)))"
  using try_body_errors [of s e]
  by (auto simp: worker_iteration_def emit_def split: prod.splits sum.splits)


lemma worker_iteration_break_iff:
  "fst (worker_iteration e s) = Break \<longleftrightarrow>
     \<not> redis_down e ZPopMin \<and> pending_queue s = []
     \<and> t_idle e - last_new_url_time s > no_new_urls_timeout s"
  using try_body_break_iff [of e s]
  by (auto simp: worker_iteration_def split: prod.splits sum.splits)

lemma worker_iteration_idle:
  "\<not> redis_down e ZPopMin \<Longrightarrow> pending_queue s = [] \<Longrightarrow>
     worker_iteration e s =
       (if t_idle e - last_new_url_time s > no_new_urls_timeout s
        then (Break, (emit [Log NoNewUrlsStopping] s)\<lparr>stop_event := True\<rparr>)
        else (Continue, emit [Sleep 1] s))"
  by (simp add: worker_iteration_def try_body_def zpopmin_def)

lemma worker_iteration_stop:
  "stop_event (snd (worker_iteration e s)) = (stop_event s \<or> fst (worker_iteration e s) = Break)"
  using try_body_stop [of e s]
  by (auto simp: worker_iteration_def emit_def split: prod.splits sum.splits)

lemma worker_thread_step:
  "worker_thread (e # es) s =
     (if stop_requested e \<or> stop_event s then (Some StopObserved, s\<lparr>stop_event := True\<rparr>)
      else if \<not> redis_down e ZPopMin \<and> pending_queue s = []
              \<and> t_idle e - last_new_url_time s > no_new_urls_timeout s
      then (Some IdleBreak, (emit [Log NoNewUrlsStopping] s)\<lparr>stop_event := True\<rparr>)
      else worker_thread es (snd (worker_iteration e s)))"
proof (cases "stop_requested e \<or> stop_event s")
  case True
  then show ?thesis by auto
next
  case ns: False
  show ?thesis
  proof (cases "\<not> redis_down e ZPopMin \<and> pending_queue s = []
              \<and> t_idle e - last_new_url_time s > no_new_urls_timeout s")
    case True
    with ns show ?thesis by (simp add: worker_iteration_idle)
  next
    case nb: False
    have "fst (worker_iteration e s) \<noteq> Break"
      using nb worker_iteration_break_iff [of e s] by blast
    then have "fst (worker_iteration e s) = Continue"
      by (cases "fst (worker_iteration e s)") auto
    with ns nb show ?thesis by (auto split: prod.splits)
  qed
qed


lemma worker_thread_errors: "prefix (errors s) (errors (snd (worker_thread es s)))"
proof (induction es arbitrary: s)
  case Nil
  then show ?case by simp
next
  case (Cons e es)
  have "prefix (errors s) (errors (snd (worker_iteration e s)))"
    by (rule worker_iteration_errors)
  moreover have "prefix (errors (snd (worker_iteration e s)))
      (errors (snd (worker_thread es (snd (worker_iteration e s)))))"
    by (rule Cons.IH)
  ultimately have "prefix (errors s) (errors (snd (worker_thread es (snd (worker_iteration e s)))))"
    by (rule prefix_order.trans)
  then show ?case
    unfolding worker_thread_step by (simp add: emit_def)
qed

section \<open>Exceptions that leave the try block, and exceptions caught inside it\<close>



















section \<open>Runs of the worker\<close>

text \<open>
  C1. A URL can be pending and failed at once, and pending and completed at once.
  Seeds \<open>films/2\<close> and \<open>films/1\<close>: the worker pops \<open>films/2\<close>, whose three attempts fail,
  and marks it failed; it then pops \<open>films/1\<close>, whose payload links to \<open>films/2\<close>, and
  \<open>add_new_urls\<close>, which tests the completed set and the queue but not the failed set,
  enqueues \<open>films/2\<close> again. Seed \<open>films/1\<close> alone, with a payload that links to itself:
  the URL is enqueued while it is being processed and then marked completed.
\<close>

theorem failed_url_is_enqueued_again:
  "failed_set (snd (worker_thread
      [quiet, quiet\<lparr>attempts :=
         (\<lambda>i. Response (JObj [(''films'', JArr [JStr ''http://x/films/2/''])]))\<rparr>]
      (snd (initialize_redis (\<lambda>c. False) [''http://x/films/2/'', ''http://x/films/1/''] fresh))))
     = {''http://x/films/2/''}
   \<and> pending_queue (snd (worker_thread
      [quiet, quiet\<lparr>attempts :=
         (\<lambda>i. Response (JObj [(''films'', JArr [JStr ''http://x/films/2/''])]))\<rparr>]
      (snd (initialize_redis (\<lambda>c. False) [''http://x/films/2/'', ''http://x/films/1/''] fresh))))
     = [(''http://x/films/2/'', 110003 / 1000)]
   \<and> completed_set (snd (worker_thread
      [quiet\<lparr>attempts :=
         (\<lambda>i. Response (JObj [(''films'', JArr [JStr ''http://x/films/1/''])]))\<rparr>]
      (snd (initialize_redis (\<lambda>c. False) [''http://x/films/1/''] fresh))))
     = {''http://x/films/1/''}
   \<and> pending_queue (snd (worker_thread
      [quiet\<lparr>attempts :=
         (\<lambda>i. Response (JObj [(''films'', JArr [JStr ''http://x/films/1/''])]))\<rparr>]
      (snd (initialize_redis (\<lambda>c. False) [''http://x/films/1/''] fresh))))
     = [(''http://x/films/1/'', 110002 / 1000)]"
  by (simp add: run_defs)

text \<open>
  C5. A fetch that ends in the \<open>except Exception\<close> clause leaves the URL in no set. The
  queue holds \<open>films/1\<close>; its first attempt raises an exception that is not a
  \<open>RequestException\<close>. After the iteration the worker is still in its loop, the error
  entry is recorded, and nothing else has changed but the queue and the trace: the
  failed set and the completed set are empty and \<open>urls_failed\<close> is 0.
\<close>

theorem unexpected_error_marks_nothing:
  "worker_thread [quiet\<lparr>attempts := (\<lambda>i. OtherException ''Expecting value'')\<rparr>]
     (fresh\<lparr>pending_queue := [(''http://x/films/1/'', 100001 / 1000)]\<rparr>)
   = (None, fresh\<lparr>errors := [''http://x/films/1/: Expecting value''],
        trace := [Sleep (1 / 2), HttpGet ''http://x/films/1/'',
        Log (UnexpectedError ''http://x/films/1/'' ''Expecting value'')]\<rparr>)
   \<and> failed_set fresh = {} \<and> completed_set fresh = {} \<and> pending_queue fresh = []
   \<and> urls_failed fresh = 0"
  by (simp add: run_defs)




section \<open>The idle check\<close>

text \<open>
  C8. When \<open>ZPOPMIN\<close> answers and the queue is empty, the iteration sets the stop
  event and breaks if the time since \<open>last_new_url_time\<close> exceeds the timeout, and
  otherwise sleeps a second and goes on, leaving the state as it was but for the
  trace; so does the loop of a worker whose stop event is not set. An iteration that
  starts with the stop event clear ends with it set only if the queue was empty and
  the timeout exceeded.
\<close>

theorem idle_check_stops_iff_timeout_exceeded:
  "(\<not> redis_down e ZPopMin \<and> pending_queue s = [] \<longrightarrow>
      worker_iteration e s =
        (if t_idle e - last_new_url_time s > no_new_urls_timeout s
         then (Break, (emit [Log NoNewUrlsStopping] s)\<lparr>stop_event := True\<rparr>)
         else (Continue, emit [Sleep 1] s)))
   \<and> (\<not> stop_requested e \<and> \<not> stop_event s \<and> \<not> redis_down e ZPopMin
        \<and> pending_queue s = [] \<longrightarrow>
      worker_thread (e # es) s =
        (if t_idle e - last_new_url_time s > no_new_urls_timeout s
         then (Some IdleBreak, (emit [Log NoNewUrlsStopping] s)\<lparr>stop_event := True\<rparr>)
         else worker_thread es (emit [Sleep 1] s)))
   \<and> (\<not> stop_event s \<and> stop_event (snd (worker_iteration e s)) \<longrightarrow>
        pending_queue s = [] \<and> t_idle e - last_new_url_time s > no_new_urls_timeout s)"
proof (intro conjI impI)
  assume "\<not> redis_down e ZPopMin \<and> pending_queue s = []"
  then show "worker_iteration e s =
        (if t_idle e - last_new_url_time s > no_new_urls_timeout s
         then (Break, (emit [Log NoNewUrlsStopping] s)\<lparr>stop_event := True\<rparr>)
         else (Continue, emit [Sleep 1] s))"
    by (simp add: worker_iteration_idle)
next
  assume a: "\<not> stop_requested e \<and> \<not> stop_event s \<and> \<not> redis_down e ZPopMin
        \<and> pending_queue s = []"
  then have "worker_iteration e s =
        (if t_idle e - last_new_url_time s > no_new_urls_timeout s
         then (Break, (emit [Log NoNewUrlsStopping] s)\<lparr>stop_event := True\<rparr>)
         else (Continue, emit [Sleep 1] s))"
    by (simp add: worker_iteration_idle)
  with a show "worker_thread (e # es) s =
        (if t_idle e - last_new_url_time s > no_new_urls_timeout s
         then (Some IdleBreak, (emit [Log NoNewUrlsStopping] s)\<lparr>stop_event := True\<rparr>)
         else worker_thread es (emit [Sleep 1] s))"
    by simp
next
  assume a: "\<not> stop_event s \<and> stop_event (snd (worker_iteration e s))"
  have "fst (worker_iteration e s) = Break"
    using a worker_iteration_stop [of e s] by blast
  then show "pending_queue s = []"
    and "t_idle e - last_new_url_time s > no_new_urls_timeout s"
    using worker_iteration_break_iff [of e s] by blast+
qed

theorem idle_check_stops_iff_timeout_exceeded_witness:
  "worker_iteration (quiet\<lparr>t_idle := 31\<rparr>) fresh
     = (Break, fresh\<lparr>stop_event := True, trace := [Log NoNewUrlsStopping]\<rparr>)
   \<and> worker_iteration (quiet\<lparr>t_idle := 30\<rparr>) fresh
     = (Continue, fresh\<lparr>trace := [Sleep 1]\<rparr>)
   \<and> worker_thread [quiet\<lparr>t_idle := 30\<rparr>, quiet\<lparr>t_idle := 31\<rparr>] fresh
     = (Some IdleBreak, fresh\<lparr>stop_event := True, trace := [Sleep 1, Log NoNewUrlsStopping]\<rparr>)"
proof -
  let ?late = "quiet\<lparr>t_idle := 31\<rparr>"
  let ?early = "quiet\<lparr>t_idle := 30\<rparr>"
  have f: "\<not> stop_event fresh" "pending_queue fresh = []" "last_new_url_time fresh = 0"
    "no_new_urls_timeout fresh = 30"
    by (simp_all add: init_scraper_def)
  have h1: "\<not> redis_down ?late ZPopMin \<and> pending_queue fresh = []" using f by simp
  have h2: "\<not> redis_down ?early ZPopMin \<and> pending_queue fresh = []" using f by simp
  have h3: "\<not> stop_requested ?early \<and> \<not> stop_event fresh \<and> \<not> redis_down ?early ZPopMin
        \<and> pending_queue fresh = []" using f by simp
  let ?s1 = "emit [Sleep 1] fresh"
  have h4: "\<not> stop_requested ?late \<and> \<not> stop_event ?s1 \<and> \<not> redis_down ?late ZPopMin
        \<and> pending_queue ?s1 = []" using f by (simp add: emit_def)
  have t1: "t_idle ?late - last_new_url_time fresh > no_new_urls_timeout fresh"
    and t2: "\<not> t_idle ?early - last_new_url_time fresh > no_new_urls_timeout fresh"
    and t3: "t_idle ?late - last_new_url_time ?s1 > no_new_urls_timeout ?s1"
    using f by (simp_all add: emit_def)
  from idle_check_stops_iff_timeout_exceeded [of ?late fresh "[]"] h1
  have "worker_iteration ?late fresh =
        (if t_idle ?late - last_new_url_time fresh > no_new_urls_timeout fresh
         then (Break, (emit [Log NoNewUrlsStopping] fresh)\<lparr>stop_event := True\<rparr>)
         else (Continue, emit [Sleep 1] fresh))"
    by blast
  with t1 have a: "worker_iteration ?late fresh
     = (Break, (emit [Log NoNewUrlsStopping] fresh)\<lparr>stop_event := True\<rparr>)"
    by (simp only: if_True)
  from idle_check_stops_iff_timeout_exceeded [of ?early fresh "[?late]"] h2
  have "worker_iteration ?early fresh =
        (if t_idle ?early - last_new_url_time fresh > no_new_urls_timeout fresh
         then (Break, (emit [Log NoNewUrlsStopping] fresh)\<lparr>stop_event := True\<rparr>)
         else (Continue, emit [Sleep 1] fresh))"
    by blast
  with t2 have b: "worker_iteration ?early fresh = (Continue, ?s1)"
    by (simp only: if_False)
  from idle_check_stops_iff_timeout_exceeded [of ?early fresh "[?late]"] h3
  have "worker_thread [?early, ?late] fresh =
        (if t_idle ?early - last_new_url_time fresh > no_new_urls_timeout fresh
         then (Some IdleBreak, (emit [Log NoNewUrlsStopping] fresh)\<lparr>stop_event := True\<rparr>)
         else worker_thread [?late] ?s1)"
    by blast
  with t2 have c: "worker_thread [?early, ?late] fresh = worker_thread [?late] ?s1"
    by (simp only: if_False)
  from idle_check_stops_iff_timeout_exceeded [of ?late ?s1 "[]"] h4
  have "worker_thread [?late] ?s1 =
        (if t_idle ?late - last_new_url_time ?s1 > no_new_urls_timeout ?s1
         then (Some IdleBreak, (emit [Log NoNewUrlsStopping] ?s1)\<lparr>stop_event := True\<rparr>)
         else worker_thread [] (emit [Sleep 1] ?s1))"
    by blast
  with t3 have d: "worker_thread [?late] ?s1
     = (Some IdleBreak, (emit [Log NoNewUrlsStopping] ?s1)\<lparr>stop_event := True\<rparr>)"
    by (simp only: if_True)
  have e1: "(emit [Log NoNewUrlsStopping] fresh)\<lparr>stop_event := True\<rparr>
      = fresh\<lparr>stop_event := True, trace := [Log NoNewUrlsStopping]\<rparr>"
    and e2: "?s1 = fresh\<lparr>trace := [Sleep 1]\<rparr>"
    and e3: "(emit [Log NoNewUrlsStopping] ?s1)\<lparr>stop_event := True\<rparr>
      = fresh\<lparr>stop_event := True, trace := [Sleep 1, Log NoNewUrlsStopping]\<rparr>"
    by (simp_all add: emit_def init_scraper_def)
  from c d have cd: "worker_thread [?early, ?late] fresh
     = (Some IdleBreak, (emit [Log NoNewUrlsStopping] ?s1)\<lparr>stop_event := True\<rparr>)"
    by (rule trans)
  from a e1 have a': "worker_iteration ?late fresh
     = (Break, fresh\<lparr>stop_event := True, trace := [Log NoNewUrlsStopping]\<rparr>)"
    by (rule trans [OF _ arg_cong])
  from b e2 have b': "worker_iteration ?early fresh = (Continue, fresh\<lparr>trace := [Sleep 1]\<rparr>)"
    by (rule trans [OF _ arg_cong])
  from cd e3 have c': "worker_thread [?early, ?late] fresh
     = (Some IdleBreak, fresh\<lparr>stop_event := True, trace := [Sleep 1, Log NoNewUrlsStopping]\<rparr>)"
    by (rule trans [OF _ arg_cong])
  from a' b' c' show ?thesis by blast
qed

section \<open>The error log\<close>

lemma scrape_url_other_exception:
  "0 < max_retries s \<Longrightarrow> hp 0 = OtherException x \<Longrightarrow>
     scrape_url dn hp u s =
       (Inr JNull, s\<lparr>trace := trace s @ [Sleep (request_delay s), HttpGet u,
                                          Log (UnexpectedError u x)],
                      errors := errors s @ [error_entry u x]\<rparr>)"
  by (cases "max_retries s") (simp_all add: scrape_url_def emit_def)

lemma errors_after_failures:
  "0 < max_retries s \<Longrightarrow>
     errors (fold (\<lambda>u s. snd (scrape_url dn (\<lambda>i. OtherException x) u s)) us s)
       = errors s @ map (\<lambda>u. error_entry u x) us"
proof (induction us arbitrary: s)
  case Nil
  then show ?case by simp
next
  case (Cons u us)
  let ?s1 = "snd (scrape_url dn (\<lambda>i. OtherException x) u s)"
  have m: "0 < max_retries ?s1" using Cons.prems by (simp add: scrape_url_frame)
  have e: "errors ?s1 = errors s @ [error_entry u x]"
    using Cons.prems by (simp add: scrape_url_other_exception)
  from Cons.IH [OF m] e show ?case by simp
qed

text \<open>
  C9, as stated, fails: no number bounds the length of the error log. From a fresh
  scraper, each fetch that ends in the \<open>except Exception\<close> clause adds an entry.
\<close>

theorem error_log_has_no_bound:
  "\<not> (\<exists>N. \<forall>us. length (errors (fold
        (\<lambda>u s. snd (scrape_url (\<lambda>c. False) (\<lambda>i. OtherException ''boom'') u s)) us fresh))
      \<le> N)"
proof
  assume "\<exists>N. \<forall>us. length (errors (fold
        (\<lambda>u s. snd (scrape_url (\<lambda>c. False) (\<lambda>i. OtherException ''boom'') u s)) us fresh))
      \<le> N"
  then obtain N where b: "\<And>us. length (errors (fold
        (\<lambda>u s. snd (scrape_url (\<lambda>c. False) (\<lambda>i. OtherException ''boom'') u s)) us fresh))
      \<le> N" by blast
  have m: "0 < max_retries fresh" by (simp add: init_scraper_def)
  have "length (errors (fold
        (\<lambda>u s. snd (scrape_url (\<lambda>c. False) (\<lambda>i. OtherException ''boom'') u s))
        (replicate (Suc N) ''http://x/films/1/'') fresh)) = Suc N"
    unfolding errors_after_failures [OF m] by (simp add: init_scraper_def)
  with b [of "replicate (Suc N) ''http://x/films/1/''"] show False by simp
qed

text \<open>
  C9, amended. The error log is append-only and unbounded: whatever a worker does, the
  log before is a prefix of the log after, so no entry is ever evicted; a fetch that
  ends in the \<open>except Exception\<close> clause appends one entry, and so does a fetch whose
  three attempts (retry limit 3) all raise a \<open>RequestException\<close>.
\<close>

theorem error_log_append_only:
  "prefix (errors s) (errors (snd (worker_thread es s)))
   \<and> (0 < max_retries s \<and> hp 0 = OtherException x \<longrightarrow>
        errors (snd (scrape_url dn hp u s)) = errors s @ [error_entry u x])
   \<and> (max_retries s = 3 \<and> (\<forall>i<3. hp i = RequestException (msg i)) \<longrightarrow>
        errors (snd (scrape_url dn hp u s)) = errors s @ [error_entry u (msg 2)])"
proof (intro conjI impI)
  show "prefix (errors s) (errors (snd (worker_thread es s)))"
    by (rule worker_thread_errors)
next
  assume "0 < max_retries s \<and> hp 0 = OtherException x"
  then show "errors (snd (scrape_url dn hp u s)) = errors s @ [error_entry u x]"
    by (simp add: scrape_url_other_exception)
next
  assume a: "max_retries s = 3 \<and> (\<forall>i<3. hp i = RequestException (msg i))"
  then have h: "hp 0 = RequestException (msg 0)" "hp (Suc 0) = RequestException (msg 1)"
    "hp (Suc (Suc 0)) = RequestException (msg 2)"
    by (simp_all add: numeral_3_eq_3 numeral_2_eq_2)
  from a have m: "max_retries s = 3" by simp
  show "errors (snd (scrape_url dn hp u s)) = errors s @ [error_entry u (msg 2)]"
    unfolding scrape_url_def m numeral_3_eq_3
    using m h by (simp add: emit_def Let_def numeral_2_eq_2)
qed

theorem error_log_append_only_witness:
  "errors (snd (scrape_url (\<lambda>c. False) (\<lambda>i. OtherException ''boom'') ''http://x/films/1/''
       (fresh\<lparr>errors := [''a'', ''b'', ''c'', ''d'', ''e'']\<rparr>)))
     = [''a'', ''b'', ''c'', ''d'', ''e'', ''http://x/films/1/: boom'']
   \<and> errors (snd (scrape_url (\<lambda>c. False) (\<lambda>i. RequestException ''503'') ''http://x/films/1/''
       (fresh\<lparr>errors := [''a'', ''b'', ''c'', ''d'', ''e'']\<rparr>)))
     = [''a'', ''b'', ''c'', ''d'', ''e'', ''http://x/films/1/: 503'']"
proof -
  let ?s = "fresh\<lparr>errors := [''a'', ''b'', ''c'', ''d'', ''e'']\<rparr>"
  have m: "max_retries ?s = 3" "errors ?s = [''a'', ''b'', ''c'', ''d'', ''e'']"
    by (simp_all add: init_scraper_def)
  have h1: "0 < max_retries ?s \<and> (\<lambda>i::nat. OtherException ''boom'') 0 = OtherException ''boom''"
    using m by simp
  have h2: "max_retries ?s = 3
     \<and> (\<forall>i<3. (\<lambda>i::nat. RequestException ''503'') i = RequestException ((\<lambda>i. ''503'') i))"
    using m by simp
  from error_log_append_only [of ?s "[]" "\<lambda>i. OtherException ''boom''" "''boom''"
         "\<lambda>c. False" "''http://x/films/1/''" "\<lambda>i. ''503''"] h1
  have a: "errors (snd (scrape_url (\<lambda>c. False) (\<lambda>i. OtherException ''boom'')
          ''http://x/films/1/'' ?s)) = errors ?s @ [error_entry ''http://x/films/1/'' ''boom'']"
    by blast
  from error_log_append_only [of ?s "[]" "\<lambda>i. RequestException ''503''" "''boom''"
         "\<lambda>c. False" "''http://x/films/1/''" "\<lambda>i. ''503''"] h2
  have b: "errors (snd (scrape_url (\<lambda>c. False) (\<lambda>i. RequestException ''503'')
          ''http://x/films/1/'' ?s)) = errors ?s @ [error_entry ''http://x/films/1/'' ''503'']"
    by blast
  from a b m(2) show ?thesis by (simp add: error_entry_def)
qed

end
